theory Spec2Isabelle
  imports Complex_Main "HOL-Library.Sublist" "HOL-Library.Stream"
begin

section \<open>Strings and character classes\<close>

text \<open>
  A Python \<open>str\<close> is a sequence of Unicode code points and \<open>len\<close> counts code points, so
  a string is a list of code points here. The source has Hangul literals; they are written
  as their code points. \<open>asc\<close> turns an ASCII literal into such a string.
\<close>

type_synonym uchar = nat
type_synonym ustring = "uchar list"

definition asc :: "string \<Rightarrow> ustring" where
  "asc s = map of_char s"

text \<open>The character classes of \<open>WORD_PATTERN\<close>: \<open>[A-Za-z]\<close>, \<open>[0-9]\<close> and the Hangul
  syllables U+AC00 to U+D7A3.\<close>

definition is_alpha :: "uchar \<Rightarrow> bool" where
  "is_alpha c \<longleftrightarrow> (65 \<le> c \<and> c \<le> 90) \<or> (97 \<le> c \<and> c \<le> 122)"

definition is_digit09 :: "uchar \<Rightarrow> bool" where
  "is_digit09 c \<longleftrightarrow> 48 \<le> c \<and> c \<le> 57"

definition is_hangul :: "uchar \<Rightarrow> bool" where
  "is_hangul c \<longleftrightarrow> 0xAC00 \<le> c \<and> c \<le> 0xD7A3"

text \<open>
  \<open>\s\<close> in a \<open>str\<close> pattern and \<open>str.strip()\<close> use the same test (\<open>Py_UNICODE_ISSPACE\<close>):
  the 29 code points below.
\<close>

definition is_space :: "uchar \<Rightarrow> bool" where
  "is_space c \<longleftrightarrow> c \<in> set [9, 10, 11, 12, 13, 28, 29, 30, 31, 32, 133, 160, 5760,
     8192, 8193, 8194, 8195, 8196, 8197, 8198, 8199, 8200, 8201, 8202,
     8232, 8233, 8239, 8287, 12288]"

text \<open>
  \<open>\d\<close> in a \<open>str\<close> pattern matches every Unicode decimal digit (category Nd), and
  \<open>int\<close> reads them all. In Unicode 14 (CPython 3.11) these are 66 runs of ten code points,
  the digits zero to nine in order; \<open>nd_zeros\<close> lists the zero of each run.
\<close>

definition nd_zeros :: "uchar list" where
  "nd_zeros = [48, 1632, 1776, 1984, 2406, 2534, 2662, 2790, 2918, 3046, 3174, 3302, 3430,
     3558, 3664, 3792, 3872, 4160, 4240, 6112, 6160, 6470, 6608, 6784, 6800, 6992, 7088,
     7232, 7248, 42528, 43216, 43264, 43472, 43504, 43600, 44016, 65296, 66720, 68912,
     69734, 69872, 69942, 70096, 70384, 70736, 70864, 71248, 71360, 71472, 71904, 72016,
     72784, 73040, 73120, 92768, 92864, 93008, 120782, 120792, 120802, 120812, 120822,
     123200, 123632, 125264, 130032]"

definition digit_value :: "uchar \<Rightarrow> nat option" where
  "digit_value c = map_option (\<lambda>z. c - z) (find (\<lambda>z. z \<le> c \<and> c < z + 10) nd_zeros)"

definition is_decimal :: "uchar \<Rightarrow> bool" where
  "is_decimal c \<longleftrightarrow> digit_value c \<noteq> None"

text \<open>
  \<open>str.lower()\<close> is applied to tokens only, whose characters are ASCII letters, ASCII
  digits, the apostrophe, the full stop and Hangul syllables; on these it changes the
  letters A to Z and nothing else.
\<close>

definition lower :: "ustring \<Rightarrow> ustring" where
  "lower s = map (\<lambda>c. if 65 \<le> c \<and> c \<le> 90 then c + 32 else c) s"

definition strip :: "ustring \<Rightarrow> ustring" where
  "strip s = rev (dropWhile is_space (rev (dropWhile is_space s)))"

section \<open>Configuration\<close>

text \<open>\<open>STOPWORDS\<close>: the English words, then the Korean particles of line 13 of the source.\<close>

definition STOPWORDS :: "ustring set" where
  "STOPWORDS = set (map asc
    [''a'', ''an'', ''the'', ''and'', ''or'', ''but'', ''if'', ''then'', ''so'', ''because'',
     ''as'', ''of'', ''in'', ''on'', ''at'', ''to'', ''for'', ''from'', ''by'', ''with'',
     ''about'', ''into'', ''through'', ''during'', ''before'', ''after'', ''above'',
     ''below'', ''up'', ''down'', ''out'', ''over'', ''under'', ''again'', ''further'',
     ''here'', ''there'', ''when'', ''where'', ''why'', ''how'', ''all'', ''any'', ''both'',
     ''each'', ''few'', ''more'', ''most'', ''other'', ''some'', ''such'', ''no'', ''nor'',
     ''not'', ''only'', ''own'', ''same'', ''so'', ''than'', ''too'', ''very'', ''can'',
     ''will'', ''just'', ''should'', ''now''] @
    [[51060], [44536], [51200], [44163], [49688], [46321], [48143],
     [46608, 45716], [44536, 47532, 44256], [44536, 47000, 49436], [46608, 54620],
     [51008], [45716], [51060], [44032], [51012], [47484], [51032], [50640],
     [50640, 49436], [51004, 47196], [47196], [50752], [44284], [46020], [47564]])"

section \<open>Tokenizer\<close>

text \<open>
  \<open>WORD_PATTERN\<close> is
  \<open>[A-Za-z]+(?:'[A-Za-z]+)?|[0-9]+(?:\.[0-9]+)?|[\<dots>]+\<close> (the last class is Hangul).
  \<open>opt_group sep cls s\<close> is the optional group \<open>(?:sep cls+)?\<close> tried at the front of
  \<open>s\<close>: the text it matches (empty when it does not) and the rest.
  \<open>match_at s\<close> is \<open>WORD_PATTERN.match\<close> at the front of \<open>s\<close>: the three alternatives
  start with disjoint classes, each \<open>+\<close> is greedy, and the match never needs to backtrack.
\<close>

definition opt_group :: "uchar \<Rightarrow> (uchar \<Rightarrow> bool) \<Rightarrow> ustring \<Rightarrow> ustring \<times> ustring" where
  "opt_group sep cls s =
     (case s of
        c # d # r \<Rightarrow>
          if c = sep \<and> cls d then (c # takeWhile cls (d # r), dropWhile cls (d # r))
          else ([], s)
      | _ \<Rightarrow> ([], s))"

definition match_at :: "ustring \<Rightarrow> (ustring \<times> ustring) option" where
  "match_at s =
     (case s of
        [] \<Rightarrow> None
      | c # _ \<Rightarrow>
          if is_alpha c then
            (let (g, r) = opt_group 39 is_alpha (dropWhile is_alpha s)
             in Some (takeWhile is_alpha s @ g, r))
          else if is_digit09 c then
            (let (g, r) = opt_group 46 is_digit09 (dropWhile is_digit09 s)
             in Some (takeWhile is_digit09 s @ g, r))
          else if is_hangul c then Some (takeWhile is_hangul s, dropWhile is_hangul s)
          else None)"

lemma opt_group_split: "opt_group sep cls s = (g, r) \<Longrightarrow> s = g @ r"
  by (auto simp: opt_group_def split: list.splits if_splits)

lemma match_at_split:
  assumes "match_at s = Some (tok, rest)"
  shows "s = tok @ rest" and "tok \<noteq> []"
proof -
  obtain c cs where s: "s = c # cs"
    using assms by (cases s) (auto simp: match_at_def)
  have tw: "takeWhile P s \<noteq> []" if "P c" for P
    using that by (simp add: s)
  have "s = tok @ rest \<and> tok \<noteq> []"
  proof (cases "is_alpha c")
    case True
    obtain g r where og: "opt_group 39 is_alpha (dropWhile is_alpha s) = (g, r)"
      by (cases "opt_group 39 is_alpha (dropWhile is_alpha s)")
    from assms True og have "tok = takeWhile is_alpha s @ g" "rest = r"
      by (auto simp: match_at_def s)
    moreover have "dropWhile is_alpha s = g @ r"
      by (rule opt_group_split [OF og])
    moreover have "takeWhile is_alpha s @ dropWhile is_alpha s = s"
      by simp
    ultimately show ?thesis using tw [of is_alpha] True
      by (metis append.assoc append_is_Nil_conv)
  next
    case na: False
    show ?thesis
    proof (cases "is_digit09 c")
      case True
      obtain g r where og: "opt_group 46 is_digit09 (dropWhile is_digit09 s) = (g, r)"
        by (cases "opt_group 46 is_digit09 (dropWhile is_digit09 s)")
      from assms na True og have "tok = takeWhile is_digit09 s @ g" "rest = r"
        by (auto simp: match_at_def s)
      moreover have "dropWhile is_digit09 s = g @ r"
        by (rule opt_group_split [OF og])
      moreover have "takeWhile is_digit09 s @ dropWhile is_digit09 s = s"
        by simp
      ultimately show ?thesis using tw [of is_digit09] True
        by (metis append.assoc append_is_Nil_conv)
    next
      case nd: False
      from assms na nd have h: "is_hangul c"
        by (auto simp: match_at_def s split: if_splits)
      from assms na nd h have "tok = takeWhile is_hangul s" "rest = dropWhile is_hangul s"
        by (auto simp: match_at_def s)
      then show ?thesis using tw [of is_hangul] h by simp
    qed
  qed
  then show "s = tok @ rest" and "tok \<noteq> []" by simp_all
qed

lemma match_at_shorter: "match_at s = Some (tok, rest) \<Longrightarrow> length rest < length s"
  using match_at_split [of s tok rest] by (cases tok) auto

text \<open>
  \<open>tokenize\<close> is \<open>[m.group(0) for m in WORD_PATTERN.finditer(text)]\<close>: scan from the left;
  where the pattern matches, emit the match and go on after it, otherwise skip one
  character.
\<close>

function tokenize :: "ustring \<Rightarrow> ustring list" where
  "tokenize [] = []"
| "tokenize (c # cs) =
     (case match_at (c # cs) of
        None \<Rightarrow> tokenize cs
      | Some (tok, rest) \<Rightarrow> tok # tokenize rest)"
  by pat_completeness auto
termination
  by (relation "measure length") (auto dest: match_at_shorter)

section \<open>Sentence splitter\<close>

text \<open>\<open>collapse_ws\<close> is \<open>re.sub(r'\s+', ' ', text)\<close>: every maximal run of white space
  becomes one space (code point 32).\<close>

function collapse_ws :: "ustring \<Rightarrow> ustring" where
  "collapse_ws [] = []"
| "collapse_ws (c # cs) =
     (if is_space c then 32 # collapse_ws (dropWhile is_space cs) else c # collapse_ws cs)"
  by pat_completeness auto
termination
  by (relation "measure length") (auto simp: length_dropWhile_le less_Suc_eq_le)

text \<open>
  The split pattern is a look-behind for one character of the class
  \<open>[\.\!\?\<dots>\?!]\<close> (full stop, exclamation mark, question mark, the ideographic full stop
  U+3002, and the question and exclamation marks again) or for the syllable U+B2E4,
  followed by \<open>\s+\<close>. \<open>re_split prev part s\<close> is \<open>re.split\<close> of that pattern: \<open>prev\<close> is the
  character before the scanning position, \<open>part\<close> the piece collected since the last
  match, \<open>s\<close> the text still to scan. A match starts at a white-space character that
  follows a terminal character and takes the whole white-space run.
\<close>

definition is_terminal :: "uchar \<Rightarrow> bool" where
  "is_terminal c \<longleftrightarrow> c \<in> set [46, 33, 63, 0x3002, 63, 33] \<or> c = 0xB2E4"

function re_split :: "uchar option \<Rightarrow> ustring \<Rightarrow> ustring \<Rightarrow> ustring list" where
  "re_split prev part [] = [part]"
| "re_split prev part (c # cs) =
     (if is_space c \<and> (case prev of None \<Rightarrow> False | Some p \<Rightarrow> is_terminal p)
      then part # re_split (Some (last (c # takeWhile is_space cs))) [] (dropWhile is_space cs)
      else re_split (Some c) (part @ [c]) cs)"
  by pat_completeness auto
termination
  by (relation "measure (\<lambda>(prev, part, s). length s)")
     (auto simp: length_dropWhile_le less_Suc_eq_le)

definition split_sentences :: "ustring \<Rightarrow> ustring list" where
  "split_sentences text =
     (if text = [] then []
      else
        let text' = strip (collapse_ws text);
            parts = re_split None [] text'
        in map strip (filter (\<lambda>p. 3 \<le> length (strip p)) parts))"

section \<open>Term scorer\<close>

text \<open>
  A Python \<open>dict\<close> keeps its keys in insertion order, and \<open>sorted\<close> is stable, so the order
  of the keys decides the order of equal scores: a dictionary is an association list.
  \<open>dict_set\<close> is \<open>d[k] = v\<close>: an existing key keeps its place. \<open>Counter\<close> counts a list,
  adding one for every element in turn.
\<close>

fun dict_set :: "('k \<times> 'v) list \<Rightarrow> 'k \<Rightarrow> 'v \<Rightarrow> ('k \<times> 'v) list" where
  "dict_set [] k v = [(k, v)]"
| "dict_set ((k', v') # d) k v =
     (if k' = k then (k', v) # d else (k', v') # dict_set d k v)"

definition Counter :: "'k list \<Rightarrow> ('k \<times> nat) list" where
  "Counter xs =
     foldl (\<lambda>d x. dict_set d x (case map_of d x of None \<Rightarrow> 1 | Some n \<Rightarrow> n + 1)) [] xs"

text \<open>
  \<open>sorted(items, key=..., reverse=True)\<close>: CPython reverses the list, sorts it stably in
  ascending order and reverses the result, so that equal keys keep their order.
\<close>

definition sorted_reverse :: "('a \<Rightarrow> 'b::linorder) \<Rightarrow> 'a list \<Rightarrow> 'a list" where
  "sorted_reverse key xs = rev (sort_key key (rev xs))"

text \<open>
  A score is \<open>f + len(t)/4\<close>, a float. Counts and quarters of lengths are exact in binary
  floating point (below \<open>2^51\<close>), so the score is the rational number of the same value.
  The parameter \<open>text\<close> is not used by the source.
\<close>

type_synonym scored = "(ustring \<times> rat) list"

definition score_tokens :: "ustring \<Rightarrow> ustring list \<Rightarrow> scored" where
  "score_tokens text sents =
     (let tokens = concat (map tokenize sents);
          freq = Counter (filter (\<lambda>t. lower t \<notin> STOPWORDS) tokens);
          scores = foldl (\<lambda>d (t, f). dict_set d t (of_nat f + of_nat (length t) / 4)) [] freq
      in sorted_reverse snd scores)"

section \<open>Fill-in-the-blank questions\<close>

text \<open>
  \<open>find_sub pat s\<close> is the first occurrence of the literal \<open>pat\<close> in \<open>s\<close>
  (\<open>re.compile(re.escape(pat)).search(s)\<close>, \<open>str.find\<close>): the text before it and the text
  after it. \<open>replace_first\<close> is \<open>pattern.sub(new, s, count=1)\<close> and \<open>s.replace(pat, new, 1)\<close>.
\<close>

fun find_sub :: "'a list \<Rightarrow> 'a list \<Rightarrow> ('a list \<times> 'a list) option" where
  "find_sub pat [] = (if pat = [] then Some ([], []) else None)"
| "find_sub pat (c # cs) =
     (if prefix pat (c # cs) then Some ([], drop (length pat) (c # cs))
      else map_option (\<lambda>(pre, post). (c # pre, post)) (find_sub pat cs))"

definition replace_first :: "'a list \<Rightarrow> 'a list \<Rightarrow> 'a list \<Rightarrow> 'a list" where
  "replace_first pat new s =
     (case find_sub pat s of None \<Rightarrow> s | Some (pre, post) \<Rightarrow> pre @ new @ post)"

definition BLANK :: ustring where
  "BLANK = asc ''____''"

text \<open>\<open>max_len\<close> is \<open>max(toks, key=len)\<close> on a list that is not empty: the first of the
  longest elements.\<close>

definition max_len :: "ustring list \<Rightarrow> ustring" where
  "max_len toks = foldl (\<lambda>best t. if length best < length t then t else best) (hd toks) (tl toks)"

text \<open>The loop over the candidates: the first one found in the sentence is blanked.\<close>

fun first_blank :: "ustring \<Rightarrow> ustring list \<Rightarrow> (ustring \<times> ustring) option" where
  "first_blank sent [] = None"
| "first_blank sent (target # rest) =
     (if find_sub target sent \<noteq> None then Some (replace_first target BLANK sent, target)
      else first_blank sent rest)"

text \<open>The result \<open>(None, None)\<close> of the source is \<open>None\<close>, a pair of strings is \<open>Some\<close>.\<close>

definition make_fill_in_blank :: "ustring \<Rightarrow> scored \<Rightarrow> (ustring \<times> ustring) option" where
  "make_fill_in_blank sent scored_tokens =
     (let toks = tokenize sent;
          candidates = filter (\<lambda>t. 2 \<le> length t \<and> t \<notin> STOPWORDS) toks;
          candidates' = (if candidates = [] \<and> toks \<noteq> [] then [max_len toks] else candidates)
      in first_blank sent candidates')"

text \<open>
  \<open>occurrences pat s\<close> counts the positions of \<open>s\<close> at which \<open>pat\<close> occurs. It is not a
  function of the source: it states how many blank markers a question contains.
\<close>

fun occurrences :: "'a list \<Rightarrow> 'a list \<Rightarrow> nat" where
  "occurrences pat [] = (if pat = [] then 1 else 0)"
| "occurrences pat (c # cs) = (if prefix pat (c # cs) then 1 else 0) + occurrences pat cs"

section \<open>True/false questions\<close>

text \<open>\<open>digit_runs\<close> is \<open>re.findall(r'\d+', s)\<close>: the maximal runs of decimal digits.\<close>

function digit_runs :: "ustring \<Rightarrow> ustring list" where
  "digit_runs [] = []"
| "digit_runs (c # cs) =
     (if is_decimal c then (c # takeWhile is_decimal cs) # digit_runs (dropWhile is_decimal cs)
      else digit_runs cs)"
  by pat_completeness auto
termination
  by (relation "measure length") (auto simp: length_dropWhile_le less_Suc_eq_le)

text \<open>
  \<open>int_of_digits\<close> is \<open>int(n)\<close> on a string of decimal digits; \<open>None\<close> stands for the
  \<open>ValueError\<close> that \<open>int\<close> raises on the empty string and on other characters (signs,
  white space and underscores, which \<open>int\<close> also reads, never reach it here). Python's
  integers are unbounded; the limit on the number of digits that CPython 3.11 puts on the
  conversions (4300 by default) is not modelled. \<open>py_str\<close> is \<open>str\<close> of an integer.
\<close>

datatype py_error = ValueError

fun digits_value :: "int \<Rightarrow> ustring \<Rightarrow> int option" where
  "digits_value acc [] = Some acc"
| "digits_value acc (c # cs) =
     (case digit_value c of None \<Rightarrow> None | Some d \<Rightarrow> digits_value (10 * acc + int d) cs)"

definition int_of_digits :: "ustring \<Rightarrow> int option" where
  "int_of_digits n = (if n = [] then None else digits_value 0 n)"

fun nat_digits :: "nat \<Rightarrow> ustring" where
  "nat_digits n = (if n < 10 then [48 + n] else nat_digits (n div 10) @ [48 + n mod 10])"

declare nat_digits.simps [simp del]

definition py_str :: "int \<Rightarrow> ustring" where
  "py_str i = (if i < 0 then 45 # nat_digits (nat (- i)) else nat_digits (nat i))"

text \<open>
  The random source. A \<open>random.Random\<close> object is abstracted to the sequence of the draws
  it will make: every call takes the next draw and maps it into the range that the
  library documents. \<open>random()\<close> returns \<open>k / 2^53\<close> for a 53-bit \<open>k\<close>, and the float \<open>0.6\<close>
  is \<open>5404319552844595 / 2^53\<close>, so \<open>rnd.random() < 0.6\<close> is a comparison of numerators.
  \<open>choice\<close> returns an element of a list that is not empty, \<open>randint a b\<close> an integer
  from \<open>a\<close> to \<open>b\<close>. Each function returns the source as the call leaves it.
\<close>

type_synonym rnd = "nat stream"

definition rnd_random_53 :: "rnd \<Rightarrow> nat \<times> rnd" where
  "rnd_random_53 r = (shd r mod 2 ^ 53, stl r)"

definition float_0_6_53 :: nat where
  "float_0_6_53 = 5404319552844595"

definition rnd_choice :: "'a list \<Rightarrow> rnd \<Rightarrow> 'a \<times> rnd" where
  "rnd_choice xs r = (xs ! (shd r mod length xs), stl r)"

definition rnd_randint :: "int \<Rightarrow> int \<Rightarrow> rnd \<Rightarrow> int \<times> rnd" where
  "rnd_randint a b r = (a + int (shd r mod nat (b - a + 1)), stl r)"

text \<open>
  \<open>make_true_false\<close> returns the triple of the source and the random source after the
  calls made on it. The source's default \<open>rnd=None\<close> only creates the generator that the
  body then uses; the model takes that generator as \<open>rnd\<close>. The explanation starts with
  the Korean for "original text" (U+C6D0 U+BB38), and the change is reported after the
  Korean for "number changed".
\<close>

definition make_true_false ::
  "ustring \<Rightarrow> scored \<Rightarrow> rnd \<Rightarrow> py_error + ((ustring \<times> bool \<times> ustring) \<times> rnd)" where
  "make_true_false sent scored_tokens rnd =
     (let explanation = [50896, 47928, 58, 32, 39] @ sent @ [39];
          nums = digit_runs sent
      in if nums = [] then Inr ((sent, True, explanation), rnd)
         else
           let (x, rnd1) = rnd_random_53 rnd
           in if x < float_0_6_53 then
                let (n, rnd2) = rnd_choice nums rnd1
                in (case int_of_digits n of
                      None \<Rightarrow> Inl ValueError
                    | Some v \<Rightarrow>
                        let (d, rnd3) = rnd_randint 1 10 rnd2;
                            new_n = py_str (v + d)
                        in Inr ((replace_first n new_n sent, False,
                                 explanation @ [32, 45, 62, 32, 49707, 51088, 32, 48320, 44221, 32]
                                   @ n @ [8594] @ new_n), rnd3))
              else Inr ((sent, True, explanation), rnd1))"

section \<open>Quiz orchestrator\<close>

record tf_item =
  tf_statement :: ustring
  tf_answer :: bool
  tf_explanation :: ustring

record blank_item =
  blank_question :: ustring
  blank_answer :: ustring

record quiz =
  tf :: "tf_item list"
  blank :: "blank_item list"

type_synonym quiz_state = "tf_item list \<times> blank_item list \<times> rnd"


text \<open>
  \<open>quiz_step\<close> is the body of the loop before its \<open>break\<close> test, on the two lists and the
  random source. \<open>if q:\<close> holds for a question that is neither \<open>None\<close> nor empty.
\<close>

definition quiz_step :: "int \<Rightarrow> int \<Rightarrow> scored \<Rightarrow> ustring \<Rightarrow> quiz_state \<Rightarrow> py_error + quiz_state" where
  "quiz_step num_tf num_blank scored s st =
     (case st of (tf_list, blank_list, rnd) \<Rightarrow>
       (case (if int (length tf_list) < num_tf then
                (case make_true_false s scored rnd of
                   Inl e \<Rightarrow> Inl e
                 | Inr ((q, truth, expl), rnd') \<Rightarrow>
                     Inr (tf_list @ [\<lparr>tf_statement = q, tf_answer = truth, tf_explanation = expl\<rparr>],
                          rnd'))
              else Inr (tf_list, rnd)) of
          Inl e \<Rightarrow> Inl e
        | Inr (tf_list', rnd') \<Rightarrow>
            Inr (tf_list',
                 (if int (length blank_list) < num_blank then
                    (case make_fill_in_blank s scored of
                       None \<Rightarrow> blank_list
                     | Some (q, a) \<Rightarrow>
                         if q \<noteq> [] then blank_list @ [\<lparr>blank_question = q, blank_answer = a\<rparr>]
                         else blank_list)
                  else blank_list),
                 rnd')))"

fun quiz_loop :: "int \<Rightarrow> int \<Rightarrow> scored \<Rightarrow> ustring list \<Rightarrow> quiz_state \<Rightarrow> py_error + quiz_state" where
  "quiz_loop num_tf num_blank scored [] st = Inr st"
| "quiz_loop num_tf num_blank scored (s # ss) st =
     (case quiz_step num_tf num_blank scored s st of
        Inl e \<Rightarrow> Inl e
      | Inr (tf_list, blank_list, rnd) \<Rightarrow>
          if num_tf \<le> int (length tf_list) \<and> num_blank \<le> int (length blank_list)
          then Inr (tf_list, blank_list, rnd)
          else quiz_loop num_tf num_blank scored ss (tf_list, blank_list, rnd))"

text \<open>
  \<open>generate_quiz(text, num_tf, num_blank)\<close> has no parameter for the random source: it
  calls \<open>random.Random()\<close>, which seeds a new generator from the operating system. The
  first argument \<open>fresh\<close> of the model is that generator; the caller does not choose it.
\<close>

definition generate_quiz :: "rnd \<Rightarrow> ustring \<Rightarrow> int \<Rightarrow> int \<Rightarrow> py_error + quiz" where
  "generate_quiz fresh text num_tf num_blank =
     (let sents = split_sentences text;
          scored = score_tokens text sents
      in case quiz_loop num_tf num_blank scored sents ([], [], fresh) of
           Inl e \<Rightarrow> Inl e
         | Inr (tf_list, blank_list, rnd) \<Rightarrow> Inr \<lparr>tf = tf_list, blank = blank_list\<rparr>)"

section \<open>Discussion topics and output\<close>

text \<open>\<open>slice_to num xs\<close> is \<open>xs[:num]\<close>: a negative bound counts from the end.\<close>

definition slice_to :: "int \<Rightarrow> 'a list \<Rightarrow> 'a list" where
  "slice_to num xs = (if 0 \<le> num then take (nat num) xs else take (nat (int (length xs) + num)) xs)"

definition generate_discussion_topics :: "ustring \<Rightarrow> int \<Rightarrow> ustring list" where
  "generate_discussion_topics text num =
     map (\<lambda>s. [39] @ s @ [39, 51032, 32, 54645, 49900, 32, 51032, 48120, 50752, 32, 49324,
                          54924, 51201, 47, 50669, 49324, 51201, 32, 50689, 54693, 51012, 32,
                          53664, 47200, 54616, 49884, 50724, 46])
         (slice_to num (split_sentences text))"

text \<open>\<open>enumerate1 xs\<close> is \<open>enumerate(xs, 1)\<close>. The three headings of \<open>format_output\<close> are the
  Korean section titles of the source, each after \<open>###\<close> and before a line feed.\<close>

definition enumerate1 :: "'a list \<Rightarrow> (int \<times> 'a) list" where
  "enumerate1 xs = zip (map int [1 ..< Suc (length xs)]) xs"

definition format_output :: "ustring list \<Rightarrow> quiz \<Rightarrow> bool \<Rightarrow> bool \<Rightarrow> bool \<Rightarrow> ustring" where
  "format_output discussions q show_discussion show_tf show_blank =
     (let out0 = [];
          out1 =
            (if show_discussion \<and> discussions \<noteq> [] then
               out0 @ [35, 35, 35, 32, 53664, 47200, 32, 51452, 51228, 10]
                 @ concat (map (\<lambda>(i, t). py_str i @ asc '') '' @ t @ [10]) (enumerate1 discussions))
                 @ [10]
             else out0);
          out2 =
            (if show_tf \<and> tf q \<noteq> [] then
               out1 @ [35, 35, 35, 32, 79, 88, 32, 47928, 51228, 10]
                 @ concat (map (\<lambda>(i, x).
                      py_str i @ asc '') '' @ tf_statement x @ [10]
                      @ [32, 32, 32, 51221, 45813, 58, 32]
                      @ (if tf_answer x then [79, 40, 52280, 41] else [88, 40, 44144, 51667, 41])
                      @ [10]
                      @ [32, 32, 32, 54644, 49444, 58, 32] @ tf_explanation x @ [10])
                    (enumerate1 (tf q)))
                 @ [10]
             else out1);
          out3 =
            (if show_blank \<and> blank q \<noteq> [] then
               out2 @ [35, 35, 35, 32, 48712, 52856, 32, 52292, 50864, 44592, 10]
                 @ concat (map (\<lambda>(i, x).
                      py_str i @ asc '') '' @ blank_question x @ [10]
                      @ [32, 32, 32, 51221, 45813, 58, 32] @ blank_answer x @ [10])
                    (enumerate1 (blank q)))
                 @ [10]
             else out2)
      in out3)"

text \<open>\<open>generate_all\<close>: \<open>types\<close> is the list of the selected category names.\<close>

definition generate_all ::
  "rnd \<Rightarrow> ustring \<Rightarrow> ustring list \<Rightarrow> int \<Rightarrow> int \<Rightarrow> int \<Rightarrow> py_error + ustring" where
  "generate_all fresh text types num_discussion num_tf num_blank =
     (let show_discussion = ([53664, 47200, 32, 51452, 51228] \<in> set types);
          show_tf = ([79, 88, 32, 47928, 51228] \<in> set types);
          show_blank = ([48712, 52856, 32, 47928, 51228] \<in> set types);
          discussions =
            (if show_discussion then generate_discussion_topics text num_discussion else [])
      in case generate_quiz fresh text num_tf num_blank of
           Inl e \<Rightarrow> Inl e
         | Inr q \<Rightarrow> Inr (format_output discussions q show_discussion show_tf show_blank))"

section \<open>Evaluation rules\<close>

text \<open>The defining equations that evaluate the model on a concrete input.\<close>

lemmas char_defs = asc_def is_alpha_def is_digit09_def is_hangul_def is_space_def
  is_terminal_def digit_value_def is_decimal_def nd_zeros_def lower_def strip_def
  STOPWORDS_def BLANK_def

lemmas fn_defs = opt_group_def match_at_def split_sentences_def Counter_def
  sorted_reverse_def score_tokens_def replace_first_def max_len_def make_fill_in_blank_def
  int_of_digits_def py_str_def rnd_random_53_def float_0_6_53_def rnd_choice_def
  rnd_randint_def make_true_false_def quiz_step_def generate_quiz_def slice_to_def
  generate_discussion_topics_def enumerate1_def format_output_def generate_all_def
  nat_digits.simps

section \<open>Tokens are matches of the pattern\<close>

lemma opt_group_idem:
  assumes "opt_group sep cls s = (g, r)" and "\<not> cls sep"
  shows "opt_group sep cls g = (g, [])" and "takeWhile cls g = []" and "dropWhile cls g = g"
  using assms
  by (auto simp: opt_group_def takeWhile_eq_all_conv dest: set_takeWhileD split: list.splits if_splits)

lemma match_at_hd:
  "s \<noteq> [] \<Longrightarrow> match_at s =
     (if is_alpha (hd s) then
        (let (g, r) = opt_group 39 is_alpha (dropWhile is_alpha s)
         in Some (takeWhile is_alpha s @ g, r))
      else if is_digit09 (hd s) then
        (let (g, r) = opt_group 46 is_digit09 (dropWhile is_digit09 s)
         in Some (takeWhile is_digit09 s @ g, r))
      else if is_hangul (hd s) then Some (takeWhile is_hangul s, dropWhile is_hangul s)
      else None)"
  by (cases s) (simp_all add: match_at_def)

lemma match_at_token:
  assumes "match_at s = Some (tok, rest)"
  shows "match_at tok = Some (tok, [])"
proof -
  obtain c cs where s: "s = c # cs"
    using assms by (cases s) (auto simp: match_at_def)
  have run: "takeWhile P (takeWhile P s @ g) = takeWhile P s"
            "dropWhile P (takeWhile P s @ g) = g"
    if "takeWhile P g = []" "dropWhile P g = g" for P g
  proof -
    have all: "\<And>x. x \<in> set (takeWhile P s) \<Longrightarrow> P x"
      by (auto dest: set_takeWhileD)
    show "takeWhile P (takeWhile P s @ g) = takeWhile P s"
      using that(1) all by simp
    show "dropWhile P (takeWhile P s @ g) = g"
      using that(2) all by simp
  qed
  show ?thesis
  proof (cases "is_alpha c")
    case True
    obtain g r where og: "opt_group 39 is_alpha (dropWhile is_alpha s) = (g, r)"
      by (cases "opt_group 39 is_alpha (dropWhile is_alpha s)")
    have tok: "tok = takeWhile is_alpha s @ g"
      using assms True og by (auto simp: match_at_def s)
    have na: "\<not> is_alpha 39" by (simp add: is_alpha_def)
    note idem = opt_group_idem [OF og na]
    have hd: "tok \<noteq> []" "is_alpha (hd tok)" using True by (simp_all add: tok s)
    have tw: "takeWhile is_alpha tok = takeWhile is_alpha s" and dw: "dropWhile is_alpha tok = g"
      unfolding tok by (rule run [OF idem(2) idem(3)])+
    have "match_at tok = Some (takeWhile is_alpha s @ g, [])"
      unfolding match_at_hd [OF hd(1)] tw dw idem(1) using hd(2) by simp
    then show ?thesis by (simp only: tok)
  next
    case na: False
    show ?thesis
    proof (cases "is_digit09 c")
      case True
      obtain g r where og: "opt_group 46 is_digit09 (dropWhile is_digit09 s) = (g, r)"
        by (cases "opt_group 46 is_digit09 (dropWhile is_digit09 s)")
      have tok: "tok = takeWhile is_digit09 s @ g"
        using assms na True og by (auto simp: match_at_def s)
      have nd: "\<not> is_digit09 46" by (simp add: is_digit09_def)
      note idem = opt_group_idem [OF og nd]
      have hd: "tok \<noteq> []" "\<not> is_alpha (hd tok)" "is_digit09 (hd tok)"
        using na True by (simp_all add: tok s)
      have tw: "takeWhile is_digit09 tok = takeWhile is_digit09 s"
        and dw: "dropWhile is_digit09 tok = g"
        unfolding tok by (rule run [OF idem(2) idem(3)])+
      have "match_at tok = Some (takeWhile is_digit09 s @ g, [])"
        unfolding match_at_hd [OF hd(1)] tw dw idem(1) using hd(2,3) by simp
      then show ?thesis by (simp only: tok)
    next
      case nd: False
      from assms na nd have h: "is_hangul c"
        by (auto simp: match_at_def s split: if_splits)
      have tok: "tok = takeWhile is_hangul s"
        using assms na nd h by (auto simp: match_at_def s)
      have hd: "tok \<noteq> []" "\<not> is_alpha (hd tok)" "\<not> is_digit09 (hd tok)" "is_hangul (hd tok)"
        using na nd h by (simp_all add: tok s)
      have tw: "takeWhile is_hangul tok = tok" and dw: "dropWhile is_hangul tok = []"
        by (auto simp: tok dest: set_takeWhileD)
      show ?thesis
        unfolding match_at_hd [OF hd(1)] tw dw using hd(2,3,4) by simp
    qed
  qed
qed

lemma token_is_match:
  "t \<in> set (tokenize s) \<Longrightarrow> \<exists>u r. match_at u = Some (t, r)"
proof (induction s rule: tokenize.induct)
  case 1
  then show ?case by simp
next
  case (2 c cs)
  then show ?case
    by (cases "match_at (c # cs)") auto
qed

lemma tokenize_token:
  assumes "t \<in> set (tokenize s)"
  shows "tokenize t = [t]"
proof -
  obtain u r where m: "match_at u = Some (t, r)"
    using token_is_match [OF assms] by blast
  have self: "match_at t = Some (t, [])" by (rule match_at_token [OF m])
  obtain c cs where t: "t = c # cs"
    using match_at_split(2) [OF m] by (cases t) auto
  show ?thesis using self by (simp add: t)
qed

text \<open>
  C9. Tokenizing is idempotent: tokenizing every token of \<open>tokenize s\<close> and concatenating
  the results in order gives \<open>tokenize s\<close> again, and every token is, on its own, one
  whole match of the pattern: tokenizing it returns just that token.
\<close>

theorem tokenize_idempotent:
  "concat (map tokenize (tokenize s)) = tokenize s \<and>
   (\<forall>t \<in> set (tokenize s). tokenize t = [t])"
proof -
  have each: "\<forall>t \<in> set (tokenize s). tokenize t = [t]"
    using tokenize_token by blast
  have "concat (map tokenize ts) = ts" if "\<forall>t \<in> set ts. tokenize t = [t]" for ts
    using that by (induction ts) simp_all
  from this [OF each] each show ?thesis by blast
qed

theorem tokenize_idempotent_witness:
  "asc ''cat's'' \<in> set (tokenize (asc ''The cat's 3.14'')) \<and>
   tokenize (asc ''cat's'') = [asc ''cat's'']"
proof -
  have mem: "asc ''cat's'' \<in> set (tokenize (asc ''The cat's 3.14''))"
    by (simp add: char_defs fn_defs)
  have "\<forall>t \<in> set (tokenize (asc ''The cat's 3.14'')). tokenize t = [t]"
    using tokenize_idempotent [of "asc ''The cat's 3.14''"] by (rule conjunct2)
  with mem show ?thesis by blast
qed

section \<open>Term scoring\<close>

text \<open>
  C10. \<open>score_tokens\<close> ignores its first parameter: for all texts \<open>text1\<close> and \<open>text2\<close> and
  every list of sentences, the ranking is the same; it depends on the sentences only.
\<close>

theorem score_tokens_ignores_text:
  "score_tokens text1 sents = score_tokens text2 sents"
  by (simp add: score_tokens_def)

section \<open>Sentences\<close>

lemma dropWhile_fixed: "dropWhile P xs = xs \<longleftrightarrow> xs = [] \<or> \<not> P (hd xs)"
  by (cases xs) (auto simp: dropWhile_eq_Cons_conv)

lemma rev_dropWhile_rev_prefix: "\<exists>w. xs = rev (dropWhile P (rev xs)) @ w"
proof -
  have "rev xs = takeWhile P (rev xs) @ dropWhile P (rev xs)" by simp
  then have "rev (rev xs) = rev (takeWhile P (rev xs) @ dropWhile P (rev xs))" by simp
  then have "xs = rev (dropWhile P (rev xs)) @ rev (takeWhile P (rev xs))"
    by (simp only: rev_rev_ident rev_append)
  then show ?thesis by blast
qed

lemma strip_idem: "strip (strip s) = strip s"
proof -
  define t where "t = dropWhile is_space s"
  define u where "u = rev (dropWhile is_space (rev t))"
  have t: "t = [] \<or> \<not> is_space (hd t)"
    unfolding t_def by (metis dropWhile_fixed dropWhile_idem)
  obtain w where w: "t = u @ w"
    unfolding u_def using rev_dropWhile_rev_prefix by blast
  have "u = [] \<or> \<not> is_space (hd u)"
    using t w by (cases u) auto
  then have front: "dropWhile is_space u = u"
    by (simp add: dropWhile_fixed)
  have rear: "dropWhile is_space (rev u) = rev u"
    unfolding u_def by simp
  have "strip u = u"
    unfolding strip_def front rear by simp
  then show ?thesis
    by (simp add: strip_def t_def u_def)
qed

text \<open>
  C5. Sentence length invariant: every sentence that \<open>split_sentences\<close> returns has at
  least 3 characters after trimming, and a fragment of the split with fewer than 3
  characters after trimming is not among the sentences.
\<close>

theorem split_sentences_length:
  "(\<forall>s \<in> set (split_sentences text). 3 \<le> length (strip s)) \<and>
   (\<forall>p \<in> set (re_split None [] (strip (collapse_ws text))).
      length (strip p) < 3 \<longrightarrow> strip p \<notin> set (split_sentences text))"
  by (auto simp: split_sentences_def Let_def strip_idem)

theorem split_sentences_length_witness:
  "asc ''Ok!'' \<in> set (split_sentences (asc ''The cat sat.  It was 5 years old. Ok! no'')) \<and>
   3 \<le> length (strip (asc ''Ok!'')) \<and>
   asc ''no'' \<in> set (re_split None [] (strip (collapse_ws (asc ''The cat sat.  It was 5 years old. Ok! no'')))) \<and>
   length (strip (asc ''no'')) < 3 \<and>
   strip (asc ''no'') \<notin> set (split_sentences (asc ''The cat sat.  It was 5 years old. Ok! no''))"
proof -
  let ?T = "asc ''The cat sat.  It was 5 years old. Ok! no''"
  have m1: "asc ''Ok!'' \<in> set (split_sentences ?T)"
    by (simp add: char_defs fn_defs)
  have m2: "asc ''no'' \<in> set (re_split None [] (strip (collapse_ws ?T)))"
    by (simp add: char_defs fn_defs)
  have m3: "length (strip (asc ''no'')) < 3"
    by (simp add: char_defs)
  note inst = split_sentences_length [of ?T]
  from inst m1 have c1: "3 \<le> length (strip (asc ''Ok!''))" by blast
  from inst m2 m3 have c2: "strip (asc ''no'') \<notin> set (split_sentences ?T)" by blast
  from m1 c1 m2 m3 c2 show ?thesis by blast
qed

section \<open>The first occurrence of a literal\<close>

lemma find_sub_prefix: "prefix pat s \<Longrightarrow> find_sub pat s = Some ([], drop (length pat) s)"
  by (cases s) simp_all

lemma find_sub_Some: "find_sub pat s = Some (pre, post) \<Longrightarrow> s = pre @ pat @ post"
proof (induction s arbitrary: pre)
  case Nil
  then show ?case by (simp split: if_splits)
next
  case (Cons c cs)
  show ?case
  proof (cases "prefix pat (c # cs)")
    case True
    then obtain r where r: "c # cs = pat @ r" by (auto simp: prefix_def)
    from True have "find_sub pat (c # cs) = Some ([], drop (length pat) (c # cs))"
      by (rule find_sub_prefix)
    with Cons.prems have "pre = []" "post = drop (length pat) (c # cs)" by simp_all
    then show ?thesis by (simp add: r)
  next
    case False
    with Cons.prems obtain pre' where "find_sub pat cs = Some (pre', post)" "pre = c # pre'"
      by auto
    with Cons.IH show ?thesis by simp
  qed
qed



lemma find_sub_first:
  "pat \<noteq> [] \<Longrightarrow> hd pat \<notin> set pre \<Longrightarrow> find_sub pat (pre @ pat @ post) = Some (pre, post)"
proof (induction pre)
  case Nil
  have "prefix pat (pat @ post)" by simp
  from find_sub_prefix [OF this] show ?case by simp
next
  case (Cons a pre)
  then have "\<not> prefix pat (a # pre @ pat @ post)"
    by (cases pat) auto
  with Cons show ?case by simp
qed

lemma first_blank_Some:
  "first_blank sent cands = Some (q, a) \<Longrightarrow>
     a \<in> set cands \<and> (\<exists>pre post. sent = pre @ a @ post \<and> q = pre @ BLANK @ post)"
proof (induction cands)
  case Nil
  then show ?case by simp
next
  case (Cons t ts)
  show ?case
  proof (cases "find_sub t sent")
    case None
    with Cons show ?thesis by auto
  next
    case (Some pp)
    obtain pre post where pp: "pp = (pre, post)" by (cases pp)
    from Some pp have "sent = pre @ t @ post" by (simp add: find_sub_Some)
    with Some pp Cons.prems show ?thesis
      by (auto simp: replace_first_def)
  qed
qed

lemma make_fill_in_blank_Some:
  assumes "make_fill_in_blank sent sc = Some (q, a)"
  shows "\<exists>pre post. sent = pre @ a @ post \<and> q = pre @ BLANK @ post"
  using assms first_blank_Some unfolding make_fill_in_blank_def Let_def by blast

lemma occurrences_none: "pat \<noteq> [] \<Longrightarrow> hd pat \<notin> set s \<Longrightarrow> occurrences pat s = 0"
  by (induction s) (cases pat, auto)+

lemma occurrences_skip:
  "pat \<noteq> [] \<Longrightarrow> hd pat \<notin> set pre \<Longrightarrow> occurrences pat (pre @ s) = occurrences pat s"
  by (induction pre) (cases pat, auto)+

lemma occurrences_BLANK_front:
  assumes "95 \<notin> set post"
  shows "occurrences BLANK (BLANK @ post) = 1"
proof -
  have z: "occurrences BLANK post = 0"
    using assms by (simp add: occurrences_none BLANK_def asc_def)
  show ?thesis
    using assms z by (cases post) (auto simp: BLANK_def asc_def)
qed

text \<open>
  C1, as the code has it. A sentence that already contains underscores can give a
  question with a second blank marker, or with a marker before the blanked token. For a
  sentence without the underscore character (code point 95): whenever
  \<open>make_fill_in_blank\<close> returns a question and an answer, the blank marker occurs exactly
  once in the question, and replacing the first marker by the answer gives the sentence.
\<close>

theorem fill_blank_round_trip:
  assumes "make_fill_in_blank sent sc = Some (q, a)" and "95 \<notin> set sent"
  shows "occurrences BLANK q = 1 \<and> replace_first BLANK a q = sent"
proof -
  obtain pre post where s: "sent = pre @ a @ post" and q: "q = pre @ BLANK @ post"
    using make_fill_in_blank_Some [OF assms(1)] by blast
  have pre: "95 \<notin> set pre" and post: "95 \<notin> set post"
    using assms(2) s by auto
  have B: "BLANK \<noteq> []" "hd BLANK = 95" by (simp_all add: BLANK_def asc_def)
  have "occurrences BLANK q = occurrences BLANK (BLANK @ post)"
    unfolding q using B pre by (simp add: occurrences_skip)
  then have one: "occurrences BLANK q = 1"
    using post by (simp add: occurrences_BLANK_front)
  have "find_sub BLANK q = Some (pre, post)"
    unfolding q using B pre by (simp add: find_sub_first)
  then have "replace_first BLANK a q = sent"
    by (simp add: replace_first_def s)
  with one show ?thesis by simp
qed

theorem fill_blank_round_trip_witness:
  "make_fill_in_blank (asc ''The cat sat on the mat.'') [] =
     Some (asc ''____ cat sat on the mat.'', asc ''The'') \<and>
   95 \<notin> set (asc ''The cat sat on the mat.'') \<and>
   occurrences BLANK (asc ''____ cat sat on the mat.'') = 1 \<and>
   replace_first BLANK (asc ''The'') (asc ''____ cat sat on the mat.'') = asc ''The cat sat on the mat.''"
proof -
  have h1: "make_fill_in_blank (asc ''The cat sat on the mat.'') [] =
     Some (asc ''____ cat sat on the mat.'', asc ''The'')"
    by (simp add: char_defs fn_defs)
  have h2: "95 \<notin> set (asc ''The cat sat on the mat.'')"
    by (simp add: asc_def)
  from fill_blank_round_trip [OF h1 h2] h1 h2 show ?thesis by blast
qed

text \<open>
  C1 as stated fails on the sentence \<open>____ is the cat.\<close>: the token \<open>is\<close> is blanked, the
  question has two markers, and the answer put into the first one gives another sentence.
\<close>

theorem fill_blank_round_trip_counterexample:
  "make_fill_in_blank (asc ''____ is the cat.'') [] =
     Some (asc ''____ ____ the cat.'', asc ''is'') \<and>
   occurrences BLANK (asc ''____ ____ the cat.'') = 2 \<and>
   replace_first BLANK (asc ''is'') (asc ''____ ____ the cat.'') = asc ''is ____ the cat.'' \<and>
   asc ''is ____ the cat.'' \<noteq> asc ''____ is the cat.''"
  by (simp add: char_defs fn_defs)


section \<open>Digit runs and the perturbation\<close>

lemma digit_runs_decimal:
  "n \<in> set (digit_runs s) \<Longrightarrow> n \<noteq> [] \<and> (\<forall>c \<in> set n. is_decimal c)"
proof (induction s rule: digit_runs.induct)
  case 1
  then show ?case by simp
next
  case (2 c cs)
  show ?case
  proof (cases "is_decimal c")
    case True
    with "2.prems" have "n = c # takeWhile is_decimal cs \<or>
        n \<in> set (digit_runs (dropWhile is_decimal cs))"
      by simp
    then show ?thesis
    proof
      assume n: "n = c # takeWhile is_decimal cs"
      have "\<forall>x \<in> set (takeWhile is_decimal cs). is_decimal x"
        by (blast dest: set_takeWhileD)
      with True n show ?thesis by simp
    next
      assume "n \<in> set (digit_runs (dropWhile is_decimal cs))"
      with True "2.IH"(1) show ?thesis by blast
    qed
  next
    case False
    with "2.prems" have "n \<in> set (digit_runs cs)" by simp
    with False "2.IH"(2) show ?thesis by blast
  qed
qed

lemma digits_value_decimal:
  "\<forall>c \<in> set n. is_decimal c \<Longrightarrow> \<exists>v. digits_value acc n = Some v"
  by (induction n arbitrary: acc) (auto simp: is_decimal_def)

lemma int_of_digits_run:
  "n \<in> set (digit_runs s) \<Longrightarrow> \<exists>v. int_of_digits n = Some v"
  using digit_runs_decimal [of n s] digits_value_decimal [of n 0]
  by (simp add: int_of_digits_def)

lemma digit_value_ascii: "d < 10 \<Longrightarrow> digit_value (48 + d) = Some d"
  by (simp add: digit_value_def nd_zeros_def)

lemma digits_value_snoc:
  "digits_value acc (xs @ [c]) =
     (case digits_value acc xs of
        None \<Rightarrow> None
      | Some v \<Rightarrow> (case digit_value c of None \<Rightarrow> None | Some d \<Rightarrow> Some (10 * v + int d)))"
  by (induction xs arbitrary: acc) (auto split: option.splits)

lemma nat_digits_value: "digits_value 0 (nat_digits n) = Some (int n)"
proof (induction n rule: nat_digits.induct)
  case (1 n)
  show ?case
  proof (cases "n < 10")
    case True
    then show ?thesis
      by (subst nat_digits.simps) (simp add: digit_value_ascii)
  next
    case False
    have dv: "digit_value (48 + n mod 10) = Some (n mod 10)"
      by (rule digit_value_ascii) simp
    have ar: "10 * int (n div 10) + int (n mod 10) = int n"
      by presburger
    from False 1 have ih: "digits_value 0 (nat_digits (n div 10)) = Some (int (n div 10))"
      by simp
    have "nat_digits n = nat_digits (n div 10) @ [48 + n mod 10]"
      using False by (subst nat_digits.simps) simp
    then show ?thesis
      by (simp add: digits_value_snoc ih dv ar)
  qed
qed

lemma nat_digits_not_Nil: "nat_digits n \<noteq> []"
  by (subst nat_digits.simps) simp

lemma int_of_digits_py_str: "0 \<le> x \<Longrightarrow> int_of_digits (py_str x) = Some x"
  by (simp add: int_of_digits_def py_str_def nat_digits_not_Nil nat_digits_value)

lemma digits_value_nonneg: "digits_value acc n = Some v \<Longrightarrow> 0 \<le> acc \<Longrightarrow> 0 \<le> v"
  by (induction n arbitrary: acc) (auto split: option.splits)

lemma int_of_digits_nonneg: "int_of_digits n = Some v \<Longrightarrow> 0 \<le> v"
  using digits_value_nonneg [of 0 n v] by (simp add: int_of_digits_def split: if_splits)

lemma rnd_choice_mem: "xs \<noteq> [] \<Longrightarrow> fst (rnd_choice xs r) \<in> set xs"
  by (simp add: rnd_choice_def)

lemma rnd_randint_1_10: "1 \<le> fst (rnd_randint 1 10 r) \<and> fst (rnd_randint 1 10 r) \<le> 10"
proof -
  have "shd r mod 10 < 10" by simp
  then show ?thesis unfolding rnd_randint_def by simp
qed

text \<open>The two ways out of \<open>make_true_false\<close>: the sentence as it is, marked true, or one
  digit run replaced, marked false. It never raises.\<close>

lemma make_true_false_cases:
  assumes "make_true_false sent sc r = res"
  shows "(\<exists>r'. res = Inr ((sent, True, [50896, 47928, 58, 32, 39] @ sent @ [39]), r')) \<or>
         (\<exists>n \<in> set (digit_runs sent). \<exists>v d r'. int_of_digits n = Some v \<and> 1 \<le> d \<and> d \<le> 10 \<and>
            res = Inr ((replace_first n (py_str (v + d)) sent, False,
                        [50896, 47928, 58, 32, 39] @ sent @ [39]
                          @ [32, 45, 62, 32, 49707, 51088, 32, 48320, 44221, 32]
                          @ n @ [8594] @ py_str (v + d)), r'))"
proof (cases "digit_runs sent = []")
  case True
  with assms show ?thesis by (auto simp: make_true_false_def)
next
  case ne: False
  obtain x r1 where x: "rnd_random_53 r = (x, r1)" by (cases "rnd_random_53 r")
  show ?thesis
  proof (cases "x < float_0_6_53")
    case False
    with assms ne x show ?thesis by (auto simp: make_true_false_def)
  next
    case True
    obtain n r2 where n: "rnd_choice (digit_runs sent) r1 = (n, r2)"
      by (cases "rnd_choice (digit_runs sent) r1")
    obtain d r3 where d: "rnd_randint 1 10 r2 = (d, r3)"
      by (cases "rnd_randint 1 10 r2")
    have mem: "n \<in> set (digit_runs sent)"
      using rnd_choice_mem [OF ne, of r1] n by simp
    obtain v where v: "int_of_digits n = Some v"
      using int_of_digits_run [OF mem] by blast
    have rng: "1 \<le> d \<and> d \<le> 10"
      using rnd_randint_1_10 [of r2] d by simp
    have "res = Inr ((replace_first n (py_str (v + d)) sent, False,
                        [50896, 47928, 58, 32, 39] @ sent @ [39]
                          @ [32, 45, 62, 32, 49707, 51088, 32, 48320, 44221, 32]
                          @ n @ [8594] @ py_str (v + d)), r3)"
      using assms ne x True n d v by (simp add: make_true_false_def Let_def)
    with mem v rng show ?thesis by blast
  qed
qed


text \<open>
  C2. True/false consistency: whenever \<open>make_true_false\<close> returns the answer false, for
  any sentence and any random source, there are a digit run \<open>n\<close> of the sentence with
  value \<open>v\<close> and an integer \<open>d\<close> from 1 to 10 such that the statement is the sentence with
  the first occurrence of \<open>n\<close> replaced by the decimal numeral of \<open>v + d\<close>, that numeral
  reads back as \<open>v + d\<close>, and the explanation contains both \<open>n\<close> and the numeral.
\<close>

theorem make_true_false_consistency:
  assumes "make_true_false sent sc r = Inr ((s, False, expl), r')"
  shows "\<exists>n \<in> set (digit_runs sent). \<exists>v d.
           int_of_digits n = Some v \<and> 1 \<le> d \<and> d \<le> 10 \<and>
           int_of_digits (py_str (v + d)) = Some (v + d) \<and>
           s = replace_first n (py_str (v + d)) sent \<and>
           sublist n expl \<and> sublist (py_str (v + d)) expl"
proof -
  define E where "E = [50896, 47928, 58, 32, 39] @ sent @ [39]
                          @ [32, 45, 62, 32, 49707, 51088, 32, 48320, 44221, 32::nat]"
  have "\<exists>n \<in> set (digit_runs sent). \<exists>v d r''. int_of_digits n = Some v \<and> 1 \<le> d \<and> d \<le> 10 \<and>
            Inr ((s, False, expl), r') = Inr ((replace_first n (py_str (v + d)) sent, False,
                        E @ n @ [8594] @ py_str (v + d)), r'')"
    using make_true_false_cases [OF assms] unfolding E_def by simp
  then obtain n v d where mem: "n \<in> set (digit_runs sent)"
    and v: "int_of_digits n = Some v" and d: "1 \<le> d" "d \<le> 10"
    and s: "s = replace_first n (py_str (v + d)) sent"
    and e: "expl = E @ n @ ([8594] @ py_str (v + d))"
    by auto
  have "0 \<le> v + d" using int_of_digits_nonneg [OF v] d by simp
  then have back_conv: "int_of_digits (py_str (v + d)) = Some (v + d)"
    by (rule int_of_digits_py_str)
  have sub1: "sublist n expl"
    unfolding e by (rule sublist_appendI)
  have e2: "expl = (E @ n @ [8594]) @ py_str (v + d) @ []"
    by (simp add: e)
  have sub2: "sublist (py_str (v + d)) expl"
    unfolding e2 by (rule sublist_appendI)
  from mem v d back_conv s sub1 sub2 show ?thesis by blast
qed

theorem make_true_false_consistency_witness:
  "make_true_false (asc ''It was 5 years old.'') [] (sconst 2) =
     Inr ((asc ''It was 8 years old.'', False,
           [50896, 47928, 58, 32, 39] @ asc ''It was 5 years old.'' @ [39]
             @ [32, 45, 62, 32, 49707, 51088, 32, 48320, 44221, 32] @ asc ''5'' @ [8594] @ asc ''8''),
          sconst 2) \<and>
   (\<exists>n \<in> set (digit_runs (asc ''It was 5 years old.'')). \<exists>v d.
           int_of_digits n = Some v \<and> 1 \<le> d \<and> d \<le> 10 \<and>
           int_of_digits (py_str (v + d)) = Some (v + d) \<and>
           asc ''It was 8 years old.'' = replace_first n (py_str (v + d)) (asc ''It was 5 years old.'') \<and>
           sublist n ([50896, 47928, 58, 32, 39] @ asc ''It was 5 years old.'' @ [39]
             @ [32, 45, 62, 32, 49707, 51088, 32, 48320, 44221, 32] @ asc ''5'' @ [8594] @ asc ''8'') \<and>
           sublist (py_str (v + d)) ([50896, 47928, 58, 32, 39] @ asc ''It was 5 years old.'' @ [39]
             @ [32, 45, 62, 32, 49707, 51088, 32, 48320, 44221, 32] @ asc ''5'' @ [8594] @ asc ''8''))"
proof -
  have h: "make_true_false (asc ''It was 5 years old.'') [] (sconst 2) =
     Inr ((asc ''It was 8 years old.'', False,
           [50896, 47928, 58, 32, 39] @ asc ''It was 5 years old.'' @ [39]
             @ [32, 45, 62, 32, 49707, 51088, 32, 48320, 44221, 32] @ asc ''5'' @ [8594] @ asc ''8''),
          sconst 2)"
    by (simp add: char_defs fn_defs)
  from make_true_false_consistency [OF h] h show ?thesis by blast
qed


section \<open>Tokens occur in the sentence\<close>






section \<open>The loop of the orchestrator\<close>















section \<open>Counting and ranking\<close>

text \<open>\<open>Counter_fold\<close>: counting keeps the keys distinct, adds the counted elements to the
  keys, and adds to the count of every key the number of its occurrences.\<close>

lemma map_of_dict_set: "map_of (dict_set d k v) = (map_of d)(k \<mapsto> v)"
  by (induction d k v rule: dict_set.induct) auto

lemma keys_dict_set: "set (map fst (dict_set d k v)) = insert k (set (map fst d))"
  by (induction d k v rule: dict_set.induct) auto

lemma distinct_dict_set: "distinct (map fst d) \<Longrightarrow> distinct (map fst (dict_set d k v))"
  by (induction d k v rule: dict_set.induct) (auto simp: keys_dict_set simp flip: set_map)

lemma dict_set_new: "k \<notin> set (map fst d) \<Longrightarrow> dict_set d k v = d @ [(k, v)]"
  by (induction d k v rule: dict_set.induct) auto

lemma Counter_fold:
  assumes "distinct (map fst d)"
  shows "distinct (map fst (foldl (\<lambda>d x. dict_set d x (case map_of d x of None \<Rightarrow> 1 | Some n \<Rightarrow> n + 1)) d xs)) \<and>
         set (map fst (foldl (\<lambda>d x. dict_set d x (case map_of d x of None \<Rightarrow> 1 | Some n \<Rightarrow> n + 1)) d xs)) =
           set (map fst d) \<union> set xs \<and>
         (\<forall>k. (case map_of (foldl (\<lambda>d x. dict_set d x (case map_of d x of None \<Rightarrow> 1 | Some n \<Rightarrow> n + 1)) d xs) k of
                  None \<Rightarrow> 0 | Some n \<Rightarrow> n) =
               (case map_of d k of None \<Rightarrow> 0 | Some n \<Rightarrow> n) + count_list xs k)"
  using assms
proof (induction xs arbitrary: d)
  case Nil
  then show ?case by simp
next
  case (Cons x xs)
  define d1 where "d1 = dict_set d x (case map_of d x of None \<Rightarrow> 1 | Some n \<Rightarrow> n + 1)"
  have dist: "distinct (map fst d1)"
    unfolding d1_def by (rule distinct_dict_set [OF Cons.prems])
  have keys: "set (map fst d1) = insert x (set (map fst d))"
    unfolding d1_def by (rule keys_dict_set)
  have cnt: "(case map_of d1 k of None \<Rightarrow> 0 | Some n \<Rightarrow> n) =
             (case map_of d k of None \<Rightarrow> 0 | Some n \<Rightarrow> n) + (if x = k then 1 else 0)" for k
    unfolding d1_def by (auto simp: map_of_dict_set split: option.splits)
  from Cons.IH [OF dist] keys cnt show ?case
    by (simp add: d1_def [symmetric] add.assoc)
qed

lemma Counter_props:
  "distinct (map fst (Counter xs))"
  "set (map fst (Counter xs)) = set xs"
  "(k, n) \<in> set (Counter xs) \<Longrightarrow> n = count_list xs k"
proof -
  note fold = Counter_fold [of "[]" xs, simplified, folded Counter_def]
  show d: "distinct (map fst (Counter xs))" using fold by simp
  show "set (map fst (Counter xs)) = set xs" using fold by simp
  assume "(k, n) \<in> set (Counter xs)"
  with d have "map_of (Counter xs) k = Some n" by simp
  with fold show "n = count_list xs k" by (metis option.simps(5))
qed

lemma scores_fold:
  "distinct (map fst d @ map fst freq) \<Longrightarrow>
   foldl (\<lambda>d (t, f). dict_set d t (g t f)) d freq = d @ map (\<lambda>(t, f). (t, g t f)) freq"
proof (induction freq arbitrary: d)
  case Nil
  then show ?case by simp
next
  case (Cons p freq)
  obtain t f where p: "p = (t, f)" by (cases p)
  from Cons.prems have new: "t \<notin> set (map fst d)" by (auto simp: p)
  have "distinct (map fst (d @ [(t, f')]) @ map fst freq)" for f'
    using Cons.prems by (auto simp: p)
  from Cons.IH [OF this] show ?case
    by (simp add: p dict_set_new [OF new])
qed

lemma sorted_reverse_props:
  "set (sorted_reverse key xs) = set xs"
  "distinct (map f (sorted_reverse key xs)) = distinct (map f xs)"
  "sorted_wrt (\<ge>) (map key (sorted_reverse key xs))"
proof -
  show "set (sorted_reverse key xs) = set xs"
    by (simp add: sorted_reverse_def)
  show "distinct (map f (sorted_reverse key xs)) = distinct (map f xs)"
    by (simp add: sorted_reverse_def distinct_map)
  have "sorted (map key (sort_key key (rev xs)))"
    by (rule sorted_sort_key)
  then have "sorted_wrt (\<ge>) (rev (map key (sort_key key (rev xs))))"
    by (simp add: sorted_wrt_rev)
  then show "sorted_wrt (\<ge>) (map key (sorted_reverse key xs))"
    by (simp add: sorted_reverse_def rev_map)
qed

lemma count_list_filter: "P t \<Longrightarrow> count_list (filter P xs) t = count_list xs t"
  by (induction xs) auto

lemma score_tokens_unfold:
  "score_tokens text sents =
     sorted_reverse snd
       (map (\<lambda>(t, f). (t, of_nat f + of_nat (length t) / 4))
            (Counter (filter (\<lambda>t. lower t \<notin> STOPWORDS) (concat (map tokenize sents)))))"
proof -
  define freq where
    "freq = Counter (filter (\<lambda>t. lower t \<notin> STOPWORDS) (concat (map tokenize sents)))"
  have "distinct (map fst [] @ map fst freq)"
    by (simp add: freq_def Counter_props(1))
  from scores_fold [OF this, of "\<lambda>t f. of_nat f + of_nat (length t) / 4"]
  have "foldl (\<lambda>d (t, f). dict_set d t (of_nat f + of_nat (length t) / 4 :: rat)) [] freq =
        map (\<lambda>(t, f). (t, of_nat f + of_nat (length t) / 4)) freq"
    by simp
  then show ?thesis
    by (simp add: score_tokens_def Let_def freq_def)
qed

text \<open>
  C6. Term scoring: the terms that \<open>score_tokens\<close> returns are distinct and are exactly the
  tokens of the sentences whose lower-case form is not a stop word; the score of a term
  is its frequency among the tokens plus a quarter of its length; and the pairs are in
  descending order of score.
\<close>

theorem score_tokens_ranking:
  "distinct (map fst (score_tokens text sents)) \<and>
   set (map fst (score_tokens text sents)) =
     {t \<in> set (concat (map tokenize sents)). lower t \<notin> STOPWORDS} \<and>
   (\<forall>(t, s) \<in> set (score_tokens text sents).
      s = of_nat (count_list (concat (map tokenize sents)) t) + of_nat (length t) / 4) \<and>
   sorted_wrt (\<ge>) (map snd (score_tokens text sents))"
proof -
  define toks where "toks = concat (map tokenize sents)"
  define kept where "kept = filter (\<lambda>t. lower t \<notin> STOPWORDS) toks"
  define items where "items = map (\<lambda>(t, f). (t, of_nat f + of_nat (length t) / 4 :: rat)) (Counter kept)"
  have st: "score_tokens text sents = sorted_reverse snd items"
    by (simp add: score_tokens_unfold items_def kept_def toks_def)
  have keys: "map fst items = map fst (Counter kept)"
    by (simp add: items_def case_prod_unfold)
  have a: "distinct (map fst (score_tokens text sents))"
    by (simp add: st sorted_reverse_props(2) keys Counter_props(1))
  have "set (map fst (score_tokens text sents)) = set kept"
    using Counter_props(2) [of kept]
    by (simp only: st set_map sorted_reverse_props(1) flip: keys) 
  then have b: "set (map fst (score_tokens text sents)) = {t \<in> set toks. lower t \<notin> STOPWORDS}"
    by (auto simp: kept_def)
  have c: "s = of_nat (count_list toks t) + of_nat (length t) / 4"
    if "(t, s) \<in> set (score_tokens text sents)" for t s
  proof -
    from that have "(t, s) \<in> set items" by (simp add: st sorted_reverse_props(1))
    then obtain f where f: "(t, f) \<in> set (Counter kept)"
      and s: "s = of_nat f + of_nat (length t) / 4"
      by (auto simp: items_def)
    from f have "t \<in> set (map fst (Counter kept))" by force
    then have "t \<in> set kept" by (simp only: Counter_props(2))
    then have "lower t \<notin> STOPWORDS" by (simp add: kept_def)
    then have "count_list kept t = count_list toks t"
      unfolding kept_def by (rule count_list_filter)
    with Counter_props(3) [OF f] s show ?thesis by simp
  qed
  have d: "sorted_wrt (\<ge>) (map snd (score_tokens text sents))"
    by (simp only: st sorted_reverse_props(3))
  from a b c d show ?thesis unfolding toks_def by blast
qed

theorem score_tokens_ranking_witness:
  "score_tokens [] [asc ''The cat sat.'', asc ''The cat ran.''] =
     [(asc ''cat'', 11 / 4), (asc ''sat'', 7 / 4), (asc ''ran'', 7 / 4)] \<and>
   (11 / 4 :: rat) =
     of_nat (count_list (concat (map tokenize [asc ''The cat sat.'', asc ''The cat ran.''])) (asc ''cat''))
       + of_nat (length (asc ''cat'')) / 4"
proof -
  let ?S = "[asc ''The cat sat.'', asc ''The cat ran.'']"
  have h: "score_tokens [] ?S = [(asc ''cat'', 11 / 4), (asc ''sat'', 7 / 4), (asc ''ran'', 7 / 4)]"
    by (simp add: char_defs fn_defs)
  then have mem: "(asc ''cat'', 11 / 4) \<in> set (score_tokens [] ?S)" by simp
  from score_tokens_ranking [of "[]" ?S] mem
  have "(11 / 4 :: rat) = of_nat (count_list (concat (map tokenize ?S)) (asc ''cat''))
       + of_nat (length (asc ''cat'')) / 4"
    by blast
  with h show ?thesis by blast
qed

section \<open>Empty input\<close>


end
